theory Spec2Isabelle
  imports Main
begin

unbundle bit_operations_syntax

section \<open>Backward register-definition search for indirect calls\<close>

text \<open>
  A shallow embedding of \<^verbatim>\<open>capa/features/extractors/viv/indirect_calls.py\<close>.
  Addresses, register numbers, flags and operand values are Python integers, hence
  \<^typ>\<open>int\<close>. The disassembler and the workspace are external: the workspace is a record
  of the three operations the module calls, and the constants the module pulls out of
  \<^verbatim>\<open>envi\<close> and \<^verbatim>\<open>vivisect.const\<close> are a record of parameters.
\<close>

subsection \<open>Data model\<close>

text \<open>
  The operand classes the module tests with \<^verbatim>\<open>isinstance\<close>. None of the four is a
  subclass of another; every other operand class of the disassembler is \<open>OtherOper\<close>.
  The payloads are \<^verbatim>\<open>reg\<close> for a register operand and \<^verbatim>\<open>imm\<close> for the other three
  (the literal, the absolute address, the displacement from the next instruction).
\<close>

datatype operand =
    i386RegOper int
  | i386ImmOper int
  | i386ImmMemOper int
  | Amd64RipRelOper int
  | OtherOper

text \<open>A decoded instruction: its address and byte size, mnemonic and operand list.\<close>

record opcode =
  insn_va :: int
  insn_size :: int
  mnem :: string
  opers :: "operand list"

text \<open>
  \<^verbatim>\<open>location: (L_VA, L_SIZE, L_LTYPE, L_TINFO)\<close> and
  \<^verbatim>\<open>xref: (XR_FROM, XR_TO, XR_RTYPE, XR_RFLAG)\<close>.
\<close>

type_synonym location = "int \<times> int \<times> int \<times> int"
type_synonym xref = "int \<times> int \<times> int \<times> int"

text \<open>
  The workspace \<^verbatim>\<open>vw\<close>: \<open>getPrevLocation vw va\<close> is
  \<^verbatim>\<open>vw.getPrevLocation(va, adjacent=True)\<close>, \<open>getXrefsTo vw va rtype\<close> is
  \<^verbatim>\<open>vw.getXrefsTo(va, rtype)\<close>, and \<open>parseOpcode vw va\<close> is \<^verbatim>\<open>vw.parseOpcode(va)\<close>,
  \<open>None\<close> when the provider raises because \<open>va\<close> does not decode.
\<close>

record workspace =
  getPrevLocation :: "int \<Rightarrow> location option"
  getXrefsTo :: "int \<Rightarrow> int \<Rightarrow> xref list"
  parseOpcode :: "int \<Rightarrow> opcode option"

text \<open>The constants of \<^verbatim>\<open>envi\<close> and \<^verbatim>\<open>vivisect.const\<close> the module reads.\<close>

record envi_consts =
  LOC_OP :: int
  IF_NOFALL :: int
  REF_CODE :: int
  BR_PROC :: int
  BR_DEREF :: int
  BR_ARCH :: int

definition FAR_BRANCH_MASK :: "envi_consts \<Rightarrow> int" where
  "FAR_BRANCH_MASK k = (BR_PROC k OR BR_DEREF k OR BR_ARCH k)"

definition DESTRUCTIVE_MNEMONICS :: "string list" where
  "DESTRUCTIVE_MNEMONICS = [''mov'', ''lea'', ''pop'', ''xor'']"

text \<open>
  What the module can raise: its own \<^verbatim>\<open>NotFoundError\<close>, Python's \<^verbatim>\<open>IndexError\<close>
  (an operand index out of range), \<^verbatim>\<open>AssertionError\<close>, \<^verbatim>\<open>AttributeError\<close>
  (\<^verbatim>\<open>.reg\<close> of an operand that has none), and the provider's decode failure, which
  the module lets through.
\<close>

datatype error = NotFoundError | IndexError | AssertionError | AttributeError | DecodeError

subsection \<open>Predecessors\<close>

definition get_previous_instructions :: "envi_consts \<Rightarrow> workspace \<Rightarrow> int \<Rightarrow> int list" where
  "get_previous_instructions k vw va =
     (let ret = (case getPrevLocation vw va of
                   None \<Rightarrow> []
                 | Some (pva, _, ptype, pinfo) \<Rightarrow>
                     if ptype = LOC_OP k \<and> \<not> (pinfo AND IF_NOFALL k \<noteq> 0) then [pva] else [])
      in ret @ map (\<lambda>(xfrom, _, _, xflag). xfrom)
                 (filter (\<lambda>(xfrom, _, _, xflag). \<not> (xflag AND FAR_BRANCH_MASK k \<noteq> 0))
                         (getXrefsTo vw va (REF_CODE k))))"

subsection \<open>The search\<close>

text \<open>
  Lines 97 to 101: the first operand is a register operand, it is the target register,
  and the mnemonic is one of the destructive ones. \<^verbatim>\<open>opnd0.reg\<close> is read only behind
  the \<^verbatim>\<open>isinstance\<close> test.
\<close>

definition destructive_write :: "int \<Rightarrow> opcode \<Rightarrow> operand \<Rightarrow> bool" where
  "destructive_write reg insn opnd0 =
     (case opnd0 of
        i386RegOper r \<Rightarrow> r = reg \<and> mnem insn \<in> set DESTRUCTIVE_MNEMONICS
      | _ \<Rightarrow> False)"

text \<open>
  Lines 110 to 122: what is returned at a destructive write. \<^verbatim>\<open>insn.opers[1]\<close> raises
  \<^verbatim>\<open>IndexError\<close> when there is no second operand. \<^verbatim>\<open>getOperValue\<close> of an immediate
  and \<^verbatim>\<open>getOperAddr\<close> of an immediate memory operand are the operand's \<^verbatim>\<open>imm\<close>;
  \<^verbatim>\<open>getOperAddr(insn)\<close> of a RIP-relative operand is the address of the next
  instruction plus the displacement.
\<close>

definition extract_constant :: "int \<Rightarrow> opcode \<Rightarrow> error + (int \<times> int option)" where
  "extract_constant cur insn =
     (if mnem insn \<noteq> ''mov'' then Inr (cur, None)
      else (case opers insn of
              opnd0 # opnd1 # _ \<Rightarrow>
                (case opnd1 of
                   i386ImmOper imm \<Rightarrow> Inr (cur, Some imm)
                 | i386ImmMemOper imm \<Rightarrow> Inr (cur, Some imm)
                 | Amd64RipRelOper imm \<Rightarrow> Inr (cur, Some (insn_va insn + insn_size insn + imm))
                 | _ \<Rightarrow> Inr (cur, None))
            | _ \<Rightarrow> Inl IndexError))"

text \<open>
  The \<^verbatim>\<open>while q:\<close> loop of \<^verbatim>\<open>find_definition\<close>, on the queue \<open>q\<close> and the set
  \<open>seen\<close>. The last argument logs, in order, the addresses the loop has passed to
  \<^verbatim>\<open>vw.parseOpcode\<close>; it is returned beside the outcome. The value \<open>None\<close> is a loop
  that never ends.
\<close>

partial_function (option) find_definition_loop ::
  "envi_consts \<Rightarrow> workspace \<Rightarrow> int \<Rightarrow> int list \<Rightarrow> int set \<Rightarrow> int list
     \<Rightarrow> ((error + (int \<times> int option)) \<times> int list) option"
where
  "find_definition_loop k vw reg q seen decoded =
     (case q of
        [] \<Rightarrow> Some (Inl NotFoundError, decoded)
      | cur # rest \<Rightarrow>
          if cur \<in> seen then find_definition_loop k vw reg rest seen decoded
          else (case parseOpcode vw cur of
                  None \<Rightarrow> Some (Inl DecodeError, decoded @ [cur])
                | Some insn \<Rightarrow>
                    (case opers insn of
                       [] \<Rightarrow> find_definition_loop k vw reg
                               (rest @ get_previous_instructions k vw cur)
                               (insert cur seen) (decoded @ [cur])
                     | opnd0 # _ \<Rightarrow>
                         if \<not> destructive_write reg insn opnd0
                         then find_definition_loop k vw reg
                                (rest @ get_previous_instructions k vw cur)
                                (insert cur seen) (decoded @ [cur])
                         else Some (extract_constant cur insn, decoded @ [cur]))))"

declare find_definition_loop.simps [code]

text \<open>The whole call, with the log of decoded addresses, and the function itself.\<close>

definition find_definition_run ::
  "envi_consts \<Rightarrow> workspace \<Rightarrow> int \<Rightarrow> int
     \<Rightarrow> ((error + (int \<times> int option)) \<times> int list) option" where
  "find_definition_run k vw va reg =
     find_definition_loop k vw reg (get_previous_instructions k vw va) {} []"

definition find_definition ::
  "envi_consts \<Rightarrow> workspace \<Rightarrow> int \<Rightarrow> int \<Rightarrow> (error + (int \<times> int option)) option" where
  "find_definition k vw va reg = map_option fst (find_definition_run k vw va reg)"

subsection \<open>Classifier and resolver\<close>

text \<open>The \<^verbatim>\<open>insn=None\<close> default: decode \<open>va\<close> when no instruction is passed.\<close>

definition insn_or_parse :: "workspace \<Rightarrow> int \<Rightarrow> opcode option \<Rightarrow> error + opcode" where
  "insn_or_parse vw va insn =
     (case insn of
        Some i \<Rightarrow> Inr i
      | None \<Rightarrow> (case parseOpcode vw va of None \<Rightarrow> Inl DecodeError | Some i \<Rightarrow> Inr i))"

definition is_indirect_call :: "workspace \<Rightarrow> int \<Rightarrow> opcode option \<Rightarrow> error + bool" where
  "is_indirect_call vw va insn =
     (case insn_or_parse vw va insn of
        Inl e \<Rightarrow> Inl e
      | Inr i \<Rightarrow>
          if mnem i = ''call''
          then (case opers i of
                  [] \<Rightarrow> Inl IndexError
                | opnd0 # _ \<Rightarrow> Inr (case opnd0 of i386RegOper r \<Rightarrow> True | _ \<Rightarrow> False))
          else Inr False)"


subsection \<open>Backward reachability\<close>

text \<open>
  \<open>flows k vw\<close> is the predecessor relation: \<open>(a, b)\<close> when \<open>a\<close> is among the
  predecessors computed for \<open>b\<close>.
\<close>

definition flows :: "envi_consts \<Rightarrow> workspace \<Rightarrow> (int \<times> int) set" where
  "flows k vw = {(a, b). a \<in> set (get_previous_instructions k vw b)}"

text \<open>
  Lines 93 to 101 as one test on the decoded instruction: it has a first operand, and
  that operand passes \<open>destructive_write\<close>.
\<close>

definition redefines :: "int \<Rightarrow> opcode \<Rightarrow> bool" where
  "redefines reg insn =
     (case opers insn of [] \<Rightarrow> False | opnd0 # _ \<Rightarrow> destructive_write reg insn opnd0)"

subsection \<open>A concrete workspace\<close>

text \<open>
  The constants as \<^verbatim>\<open>envi\<close> and \<^verbatim>\<open>vivisect.const\<close> define them, and a small workspace
  used to run the functions:
  \<^item> two paths merge at the call at 120: \<open>mov r0, 0x1234\<close> at 100 and \<open>jmp 120\<close> at 105
    on one, \<open>mov r0, [0x401000]\<close> at 110 and \<open>add r0, 1\<close> at 115 falling through on the
    other; a call from 500 also targets 120;
  \<^item> a loop 200, 201, 204 (\<open>nop\<close>, \<open>add r0, 1\<close>, \<open>jnz 200\<close>) before the call at 206,
    with 200 at the function entry;
  \<^item> 298 both falls through and jumps to 300;
  \<^item> 400 follows data and is referenced only through far edges;
  \<^item> 800, 810 and 830 hold a \<open>mov\<close> from a register-indexed operand, from a
    RIP-relative operand and from a register, and 820 holds a \<open>pop\<close>.
\<close>

definition ex_consts :: envi_consts where
  "ex_consts = \<lparr>LOC_OP = 5, IF_NOFALL = 1, REF_CODE = 1, BR_PROC = 1, BR_DEREF = 4, BR_ARCH = 32\<rparr>"

definition ex_locations :: "(int \<times> location) list" where
  "ex_locations =
     [(105, (100, 5, 5, 0)), (107, (105, 2, 5, 1)), (115, (110, 5, 5, 0)), (120, (115, 5, 5, 0)),
      (201, (200, 1, 5, 0)), (204, (201, 3, 5, 0)), (206, (204, 2, 5, 0)),
      (300, (298, 2, 5, 0)), (400, (396, 4, 2, 0))]"

definition ex_xrefs :: "xref list" where
  "ex_xrefs =
     [(105, 120, 1, 0), (500, 120, 1, 1), (204, 200, 1, 2), (298, 300, 1, 2),
      (510, 400, 1, 4), (520, 400, 1, 32)]"

definition mk_insn :: "int \<Rightarrow> int \<Rightarrow> string \<Rightarrow> operand list \<Rightarrow> opcode" where
  "mk_insn a n m os = \<lparr>insn_va = a, insn_size = n, mnem = m, opers = os\<rparr>"

definition ex_opcodes :: "(int \<times> opcode) list" where
  "ex_opcodes =
     [(100, mk_insn 100 5 ''mov'' [i386RegOper 0, i386ImmOper 4660]),
      (105, mk_insn 105 2 ''jmp'' [OtherOper]),
      (110, mk_insn 110 5 ''mov'' [i386RegOper 0, i386ImmMemOper 4198400]),
      (115, mk_insn 115 5 ''add'' [i386RegOper 0, i386ImmOper 1]),
      (120, mk_insn 120 2 ''call'' [i386RegOper 0]),
      (200, mk_insn 200 1 ''nop'' []),
      (201, mk_insn 201 3 ''add'' [i386RegOper 0, i386ImmOper 1]),
      (204, mk_insn 204 2 ''jnz'' [OtherOper]),
      (206, mk_insn 206 2 ''call'' [i386RegOper 0]),
      (800, mk_insn 800 3 ''mov'' [i386RegOper 0, OtherOper]),
      (810, mk_insn 810 7 ''mov'' [i386RegOper 0, Amd64RipRelOper 4096]),
      (820, mk_insn 820 1 ''pop'' [i386RegOper 0]),
      (830, mk_insn 830 2 ''mov'' [i386RegOper 0, i386RegOper 1])]"

definition ex_vw :: workspace where
  "ex_vw = \<lparr>getPrevLocation = map_of ex_locations,
            getXrefsTo = (\<lambda>va rtype.
               filter (\<lambda>(xfrom, xto, xtype, xflag). xto = va \<and> xtype = rtype) ex_xrefs),
            parseOpcode = map_of ex_opcodes\<rparr>"

section \<open>Helper facts\<close>

lemmas ex_defs =
  ex_consts_def ex_locations_def ex_xrefs_def mk_insn_def ex_opcodes_def ex_vw_def

lemmas pred_defs = get_previous_instructions_def FAR_BRANCH_MASK_def

lemma redefines_iff:
  "redefines reg insn \<longleftrightarrow>
     (\<exists>rest. opers insn = i386RegOper reg # rest) \<and> mnem insn \<in> set DESTRUCTIVE_MNEMONICS"
  by (auto simp: redefines_def destructive_write_def split: list.splits operand.splits)

lemma and_mask_zero_iff:
  "(x AND FAR_BRANCH_MASK k = 0) \<longleftrightarrow>
     (x AND BR_PROC k = 0 \<and> x AND BR_DEREF k = 0 \<and> x AND BR_ARCH k = 0)"
  by (simp add: FAR_BRANCH_MASK_def bit.conj_disj_distrib or_eq_0_iff)

text \<open>One pass of the loop body, case by case.\<close>

lemma loop_Nil:
  "find_definition_loop k vw reg [] seen decoded = Some (Inl NotFoundError, decoded)"
  by (subst find_definition_loop.simps) simp

lemma loop_seen:
  "cur \<in> seen \<Longrightarrow>
   find_definition_loop k vw reg (cur # q) seen decoded
     = find_definition_loop k vw reg q seen decoded"
  by (subst find_definition_loop.simps) simp

lemma loop_decode_error:
  "cur \<notin> seen \<Longrightarrow> parseOpcode vw cur = None \<Longrightarrow>
   find_definition_loop k vw reg (cur # q) seen decoded = Some (Inl DecodeError, decoded @ [cur])"
  by (subst find_definition_loop.simps) simp

lemma loop_skip:
  "cur \<notin> seen \<Longrightarrow> parseOpcode vw cur = Some insn \<Longrightarrow> \<not> redefines reg insn \<Longrightarrow>
   find_definition_loop k vw reg (cur # q) seen decoded =
     find_definition_loop k vw reg (q @ get_previous_instructions k vw cur)
       (insert cur seen) (decoded @ [cur])"
  by (subst find_definition_loop.simps) (simp add: redefines_def split: list.splits)

lemma loop_write:
  "cur \<notin> seen \<Longrightarrow> parseOpcode vw cur = Some insn \<Longrightarrow> redefines reg insn \<Longrightarrow>
   find_definition_loop k vw reg (cur # q) seen decoded
     = Some (extract_constant cur insn, decoded @ [cur])"
  by (subst find_definition_loop.simps) (simp add: redefines_def split: list.splits)

lemma extract_constant_addr:
  "extract_constant cur insn = Inr (addr, val) \<Longrightarrow> addr = cur"
  by (auto simp: extract_constant_def split: if_splits list.splits operand.splits)

section \<open>The classifier\<close>

text \<open>
  C7. \<open>is_indirect_call\<close> returns true if and only if the mnemonic is \<^verbatim>\<open>call\<close> and the
  first operand is a register operand; a call whose first operand is an immediate, or
  any of the memory forms, returns false. Without an instruction argument the one
  decoded at \<open>va\<close> is classified.
\<close>

theorem is_indirect_call_iff:
  "(is_indirect_call vw va (Some i) = Inr True
      \<longleftrightarrow> mnem i = ''call'' \<and> (\<exists>r rest. opers i = i386RegOper r # rest))
   \<and> (mnem i = ''call'' \<and> opers i = opnd0 # rest
        \<and> opnd0 \<in> {i386ImmOper v, i386ImmMemOper v, Amd64RipRelOper v, OtherOper}
      \<longrightarrow> is_indirect_call vw va (Some i) = Inr False)
   \<and> is_indirect_call vw va None =
       (case parseOpcode vw va of
          None \<Rightarrow> Inl DecodeError
        | Some parsed \<Rightarrow> is_indirect_call vw va (Some parsed))"
  by (auto simp: is_indirect_call_def insn_or_parse_def
      split: list.splits operand.splits option.splits)

theorem is_indirect_call_iff_witness:
  "is_indirect_call ex_vw 120 (Some (mk_insn 120 2 ''call'' [i386RegOper 0])) = Inr True
   \<and> is_indirect_call ex_vw 120 (Some (mk_insn 120 5 ''call'' [i386ImmMemOper 4198400])) = Inr False"
  using is_indirect_call_iff [of ex_vw 120 "mk_insn 120 2 ''call'' [i386RegOper 0]"
      "i386RegOper 0" "[]" 0]
    is_indirect_call_iff [of ex_vw 120 "mk_insn 120 5 ''call'' [i386ImmMemOper 4198400]"
      "i386ImmMemOper 4198400" "[]" 4198400]
  by (simp add: mk_insn_def)

section \<open>The predecessor computation\<close>

text \<open>
  C5. An address is among the predecessors of \<open>va\<close> exactly when it is the adjacent
  prior location, that location is an instruction (\<open>LOC_OP\<close>) and its \<open>IF_NOFALL\<close> flag
  is clear, or it is the source of a code cross-reference to \<open>va\<close> none of whose far
  flags (\<open>BR_PROC\<close>, \<open>BR_DEREF\<close>, \<open>BR_ARCH\<close>) is set. So every near code reference
  contributes its source, and an address that reaches \<open>va\<close> only through far edges is
  never included.
\<close>

theorem get_previous_instructions_members:
  "a \<in> set (get_previous_instructions k vw va) \<longleftrightarrow>
     (\<exists>psize ptype pinfo. getPrevLocation vw va = Some (a, psize, ptype, pinfo)
         \<and> ptype = LOC_OP k \<and> pinfo AND IF_NOFALL k = 0)
   \<or> (\<exists>xto xtype xflag. (a, xto, xtype, xflag) \<in> set (getXrefsTo vw va (REF_CODE k))
         \<and> xflag AND BR_PROC k = 0 \<and> xflag AND BR_DEREF k = 0 \<and> xflag AND BR_ARCH k = 0)"
proof -
  have fall: "set (case getPrevLocation vw va of None \<Rightarrow> []
                 | Some (pva, _, ptype, pinfo) \<Rightarrow>
                     if ptype = LOC_OP k \<and> \<not> (pinfo AND IF_NOFALL k \<noteq> 0) then [pva] else [])
              = {a. \<exists>psize ptype pinfo. getPrevLocation vw va = Some (a, psize, ptype, pinfo)
                    \<and> ptype = LOC_OP k \<and> pinfo AND IF_NOFALL k = 0}"
    by (cases "getPrevLocation vw va") auto
  have refs: "set (map (\<lambda>(xfrom, _, _, xflag). xfrom)
                 (filter (\<lambda>(xfrom, _, _, xflag). \<not> (xflag AND FAR_BRANCH_MASK k \<noteq> 0))
                         (getXrefsTo vw va (REF_CODE k))))
              = {a. \<exists>xto xtype xflag. (a, xto, xtype, xflag) \<in> set (getXrefsTo vw va (REF_CODE k))
                    \<and> xflag AND BR_PROC k = 0 \<and> xflag AND BR_DEREF k = 0 \<and> xflag AND BR_ARCH k = 0}"
    by (force simp: and_mask_zero_iff)
  show ?thesis
    unfolding get_previous_instructions_def Let_def set_append fall refs by blast
qed

theorem get_previous_instructions_members_witness:
  "get_previous_instructions ex_consts ex_vw 120 = [115, 105]
   \<and> getXrefsTo ex_vw 120 (REF_CODE ex_consts) = [(105, 120, 1, 0), (500, 120, 1, 1)]
   \<and> ((\<exists>psize ptype pinfo. getPrevLocation ex_vw 120 = Some (500, psize, ptype, pinfo)
         \<and> ptype = LOC_OP ex_consts \<and> pinfo AND IF_NOFALL ex_consts = 0)
      \<or> (\<exists>xto xtype xflag. (500, xto, xtype, xflag) \<in> set (getXrefsTo ex_vw 120 (REF_CODE ex_consts))
         \<and> xflag AND BR_PROC ex_consts = 0 \<and> xflag AND BR_DEREF ex_consts = 0
         \<and> xflag AND BR_ARCH ex_consts = 0)) = False"
proof -
  have preds: "get_previous_instructions ex_consts ex_vw 120 = [115, 105]"
    by (simp add: pred_defs ex_defs)
  have refs: "getXrefsTo ex_vw 120 (REF_CODE ex_consts) = [(105, 120, 1, 0), (500, 120, 1, 1)]"
    by (simp add: ex_defs)
  show ?thesis
    using get_previous_instructions_members [of 500 ex_consts ex_vw 120] preds refs
    by simp
qed

text \<open>
  C9, as the code has it. The predecessors are returned as a list, and the list can
  hold an address twice; it is empty exactly when the adjacent prior location does not
  qualify (there is none, it is not an instruction, or it does not fall through) and
  every code cross-reference to the address is a far branch. The function has no error
  result.
\<close>

theorem get_previous_instructions_empty_iff:
  "get_previous_instructions k vw va = [] \<longleftrightarrow>
     (\<forall>pva psize ptype pinfo. getPrevLocation vw va = Some (pva, psize, ptype, pinfo)
         \<longrightarrow> ptype \<noteq> LOC_OP k \<or> pinfo AND IF_NOFALL k \<noteq> 0)
   \<and> (\<forall>x \<in> set (getXrefsTo vw va (REF_CODE k)). snd (snd (snd x)) AND FAR_BRANCH_MASK k \<noteq> 0)"
  by (auto simp: get_previous_instructions_def filter_empty_conv split: option.splits)

theorem get_previous_instructions_empty_iff_witness:
  "getPrevLocation ex_vw 400 = Some (396, 4, 2, 0)
   \<and> getXrefsTo ex_vw 400 (REF_CODE ex_consts) = [(510, 400, 1, 4), (520, 400, 1, 32)]
   \<and> get_previous_instructions ex_consts ex_vw 400 = []
   \<and> getPrevLocation ex_vw 100 = None \<and> getXrefsTo ex_vw 100 (REF_CODE ex_consts) = []
   \<and> get_previous_instructions ex_consts ex_vw 100 = []"
  using get_previous_instructions_empty_iff [of ex_consts ex_vw 400]
    get_previous_instructions_empty_iff [of ex_consts ex_vw 100]
  by (simp add: ex_defs FAR_BRANCH_MASK_def)

text \<open>
  C9, as stated, fails: 298 falls through to 300 and also jumps to it, and the
  predecessors of 300 are \<open>[298, 298]\<close>.
\<close>

theorem get_previous_instructions_duplicates:
  "get_previous_instructions ex_consts ex_vw 300 = [298, 298]
   \<and> \<not> distinct (get_previous_instructions ex_consts ex_vw 300)"
  by (simp add: pred_defs ex_defs)

section \<open>One pass of the search\<close>

text \<open>
  C1. When the search decodes, at an address \<open>cur\<close> it has not visited, an instruction
  whose first operand is the target register and whose mnemonic is destructive, it
  returns at once: \<open>(cur, None)\<close> when the mnemonic is not \<^verbatim>\<open>mov\<close>; for \<^verbatim>\<open>mov\<close> the second
  operand decides: the literal of an immediate, the address of an immediate memory
  operand (not what is stored there), the address of the next instruction plus the
  displacement for a RIP-relative operand, and \<open>None\<close> for any other operand.
\<close>

theorem find_definition_returned_pair:
  assumes "cur \<notin> seen" and "parseOpcode vw cur = Some insn"
    and "opers insn = i386RegOper reg # rest" and "mnem insn \<in> set DESTRUCTIVE_MNEMONICS"
  shows "(mnem insn \<noteq> ''mov'' \<longrightarrow>
            map_option fst (find_definition_loop k vw reg (cur # q) seen decoded)
              = Some (Inr (cur, None)))
       \<and> (mnem insn = ''mov'' \<longrightarrow>
            (\<forall>opnd1 more. rest = opnd1 # more \<longrightarrow>
               map_option fst (find_definition_loop k vw reg (cur # q) seen decoded) =
                 Some (Inr (cur, case opnd1 of
                                   i386ImmOper imm \<Rightarrow> Some imm
                                 | i386ImmMemOper imm \<Rightarrow> Some imm
                                 | Amd64RipRelOper imm \<Rightarrow> Some (insn_va insn + insn_size insn + imm)
                                 | _ \<Rightarrow> None))))"
proof -
  have "redefines reg insn"
    using assms(3,4) by (simp add: redefines_iff)
  then have "find_definition_loop k vw reg (cur # q) seen decoded
               = Some (extract_constant cur insn, decoded @ [cur])"
    using assms(1,2) by (simp add: loop_write)
  then show ?thesis
    using assms(3) by (auto simp: extract_constant_def split: operand.splits)
qed

theorem find_definition_returned_pair_witness:
  "parseOpcode ex_vw 110 = Some (mk_insn 110 5 ''mov'' [i386RegOper 0, i386ImmMemOper 4198400])
   \<and> map_option fst (find_definition_loop ex_consts ex_vw 0 [110, 100] {115, 105} [115, 105])
       = Some (Inr (110, Some 4198400))
   \<and> parseOpcode ex_vw 810 = Some (mk_insn 810 7 ''mov'' [i386RegOper 0, Amd64RipRelOper 4096])
   \<and> map_option fst (find_definition_loop ex_consts ex_vw 0 [810] {} [])
       = Some (Inr (810, Some 4913))"
  using find_definition_returned_pair [of 110 "{115, 105}" ex_vw
      "mk_insn 110 5 ''mov'' [i386RegOper 0, i386ImmMemOper 4198400]" 0
      "[i386ImmMemOper 4198400]" ex_consts "[100]" "[115, 105]"]
    find_definition_returned_pair [of 810 "{}" ex_vw
      "mk_insn 810 7 ''mov'' [i386RegOper 0, Amd64RipRelOper 4096]" 0
      "[Amd64RipRelOper 4096]" ex_consts "[]" "[]"]
  by (simp add: ex_defs DESTRUCTIVE_MNEMONICS_def)

text \<open>
  C2. For an address \<open>cur\<close> taken from the queue and not yet visited, the decoded
  instruction ends the search there exactly when its first operand is the target
  register and its mnemonic is one of \<^verbatim>\<open>mov\<close>, \<^verbatim>\<open>lea\<close>, \<^verbatim>\<open>pop\<close>, \<^verbatim>\<open>xor\<close>. Any other
  instruction (no operands, another first operand, another mnemonic such as \<^verbatim>\<open>add\<close>)
  is skipped: the search goes on with the predecessors of \<open>cur\<close> appended to the queue
  and \<open>cur\<close> marked visited.
\<close>

theorem find_definition_boundary_iff:
  assumes "cur \<notin> seen" and "parseOpcode vw cur = Some insn"
  shows "((\<exists>rest. opers insn = i386RegOper reg # rest) \<and> mnem insn \<in> set DESTRUCTIVE_MNEMONICS
            \<longrightarrow> find_definition_loop k vw reg (cur # q) seen decoded
                  = Some (extract_constant cur insn, decoded @ [cur]))
       \<and> (\<not> ((\<exists>rest. opers insn = i386RegOper reg # rest) \<and> mnem insn \<in> set DESTRUCTIVE_MNEMONICS)
            \<longrightarrow> find_definition_loop k vw reg (cur # q) seen decoded
                  = find_definition_loop k vw reg (q @ get_previous_instructions k vw cur)
                      (insert cur seen) (decoded @ [cur]))"
  using assms loop_write [of cur seen vw insn reg k q decoded]
    loop_skip [of cur seen vw insn reg k q decoded]
  by (simp add: redefines_iff)

theorem find_definition_boundary_iff_witness:
  "parseOpcode ex_vw 115 = Some (mk_insn 115 5 ''add'' [i386RegOper 0, i386ImmOper 1])
   \<and> find_definition_loop ex_consts ex_vw 0 [115, 105] {} []
       = find_definition_loop ex_consts ex_vw 0 [105, 110] {115} [115]
   \<and> parseOpcode ex_vw 200 = Some (mk_insn 200 1 ''nop'' [])
   \<and> find_definition_loop ex_consts ex_vw 0 [200] {204, 201} [204, 201]
       = find_definition_loop ex_consts ex_vw 0 [204] {200, 204, 201} [204, 201, 200]
   \<and> parseOpcode ex_vw 100 = Some (mk_insn 100 5 ''mov'' [i386RegOper 0, i386ImmOper 4660])
   \<and> find_definition_loop ex_consts ex_vw 0 [100] {} [] = Some (Inr (100, Some 4660), [100])"
proof -
  have p115: "get_previous_instructions ex_consts ex_vw 115 = [110]"
    and p200: "get_previous_instructions ex_consts ex_vw 200 = [204]"
    by (simp_all add: pred_defs ex_defs)
  show ?thesis
    using find_definition_boundary_iff [of 115 "{}" ex_vw
        "mk_insn 115 5 ''add'' [i386RegOper 0, i386ImmOper 1]" 0 ex_consts "[105]" "[]"]
      find_definition_boundary_iff [of 200 "{204, 201}" ex_vw
        "mk_insn 200 1 ''nop'' []" 0 ex_consts "[]" "[204, 201]"]
      find_definition_boundary_iff [of 100 "{}" ex_vw
        "mk_insn 100 5 ''mov'' [i386RegOper 0, i386ImmOper 4660]" 0 ex_consts "[]" "[]"]
      p115 p200
    by (simp add: ex_defs DESTRUCTIVE_MNEMONICS_def extract_constant_def)
qed

section \<open>The search as a whole\<close>

lemma loop_terminates:
  assumes fin: "finite U" and closed: "\<forall>a\<in>U. set (get_previous_instructions k vw a) \<subseteq> U"
  shows "set q \<subseteq> U \<Longrightarrow> \<exists>r. find_definition_loop k vw reg q seen dec = Some r"
proof (induction "card (U - seen)" arbitrary: seen q dec rule: less_induct)
  case less
  show ?case using less.prems
  proof (induction q arbitrary: dec)
    case Nil
    show ?case by (simp add: loop_Nil)
  next
    case (Cons cur rest)
    show ?case
    proof (cases "cur \<in> seen")
      case True
      then show ?thesis using Cons by (simp add: loop_seen)
    next
      case unseen: False
      show ?thesis
      proof (cases "parseOpcode vw cur")
        case None
        then show ?thesis using unseen by (simp add: loop_decode_error)
      next
        case (Some insn)
        show ?thesis
        proof (cases "redefines reg insn")
          case True
          then show ?thesis using unseen Some by (simp add: loop_write)
        next
          case False
          have cur: "cur \<in> U" using Cons.prems by simp
          have "U - insert cur seen \<subset> U - seen" using cur unseen by blast
          then have less_card: "card (U - insert cur seen) < card (U - seen)"
            using fin by (simp add: psubset_card_mono)
          have sub: "set (rest @ get_previous_instructions k vw cur) \<subseteq> U"
            using Cons.prems closed cur by auto
          from less.hyps [OF less_card sub]
          show ?thesis using unseen Some False by (simp add: loop_skip)
        qed
      qed
    qed
  qed
qed

text \<open>
  Partial correctness of the loop: a property that holds for the value returned at each
  exit, and is carried back over each pass that goes on, holds for every result.
\<close>

lemma loop_cases_induct [consumes 1, case_names Nil Seen Decode Skip Write]:
  assumes run: "find_definition_loop k vw reg q seen dec = Some y"
    and nil: "\<And>seen dec. P [] seen dec (Inl NotFoundError, dec)"
    and skip_seen: "\<And>cur rest seen dec y. cur \<in> seen \<Longrightarrow> P rest seen dec y \<Longrightarrow>
                      P (cur # rest) seen dec y"
    and decode: "\<And>cur rest seen dec. cur \<notin> seen \<Longrightarrow> parseOpcode vw cur = None \<Longrightarrow>
                   P (cur # rest) seen dec (Inl DecodeError, dec @ [cur])"
    and skip: "\<And>cur rest seen dec insn y. cur \<notin> seen \<Longrightarrow> parseOpcode vw cur = Some insn \<Longrightarrow>
                 \<not> redefines reg insn \<Longrightarrow>
                 P (rest @ get_previous_instructions k vw cur) (insert cur seen) (dec @ [cur]) y \<Longrightarrow>
                 P (cur # rest) seen dec y"
    and wr: "\<And>cur rest seen dec insn. cur \<notin> seen \<Longrightarrow> parseOpcode vw cur = Some insn \<Longrightarrow>
               redefines reg insn \<Longrightarrow>
               P (cur # rest) seen dec (extract_constant cur insn, dec @ [cur])"
  shows "P q seen dec y"
proof -
  have "k = k \<and> vw = vw \<and> reg = reg \<longrightarrow> P q seen dec y"
  proof (rule find_definition_loop.raw_induct
      [where P = "\<lambda>k' vw' reg' q seen dec y. k' = k \<and> vw' = vw \<and> reg' = reg \<longrightarrow> P q seen dec y",
       OF _ run])
    fix loop k' vw' reg' q seen dec y
    assume IH: "\<And>k' vw' reg' q seen dec y. loop k' vw' reg' q seen dec = Some y \<Longrightarrow>
                  k' = k \<and> vw' = vw \<and> reg' = reg \<longrightarrow> P q seen dec y"
      and body: "(case q of
          [] \<Rightarrow> Some (Inl NotFoundError, dec)
        | cur # rest \<Rightarrow>
            if cur \<in> seen then loop k' vw' reg' rest seen dec
            else (case parseOpcode vw' cur of
                    None \<Rightarrow> Some (Inl DecodeError, dec @ [cur])
                  | Some insn \<Rightarrow>
                      (case opers insn of
                         [] \<Rightarrow> loop k' vw' reg'
                                 (rest @ get_previous_instructions k' vw' cur)
                                 (insert cur seen) (dec @ [cur])
                       | opnd0 # _ \<Rightarrow>
                           if \<not> destructive_write reg' insn opnd0
                           then loop k' vw' reg'
                                  (rest @ get_previous_instructions k' vw' cur)
                                  (insert cur seen) (dec @ [cur])
                           else Some (extract_constant cur insn, dec @ [cur])))) = Some y"
    show "k' = k \<and> vw' = vw \<and> reg' = reg \<longrightarrow> P q seen dec y"
    proof
      assume same: "k' = k \<and> vw' = vw \<and> reg' = reg"
      show "P q seen dec y"
      proof (cases q)
        case Nil
        then have "y = (Inl NotFoundError, dec)" using body by simp
        then show ?thesis using Nil nil by simp
      next
        case (Cons cur rest)
        show ?thesis
        proof (cases "cur \<in> seen")
          case True
          then have "loop k vw reg rest seen dec = Some y"
            using body Cons same by simp
          then have "P rest seen dec y" using IH by blast
          then show ?thesis using Cons True skip_seen by blast
        next
          case unseen: False
          show ?thesis
          proof (cases "parseOpcode vw cur")
            case None
            then have "y = (Inl DecodeError, dec @ [cur])"
              using body Cons same unseen by simp
            then show ?thesis using Cons unseen None decode by blast
          next
            case (Some insn)
            show ?thesis
            proof (cases "redefines reg insn")
              case True
              then have "y = (extract_constant cur insn, dec @ [cur])"
                using body Cons same unseen Some
                by (simp add: redefines_def split: list.splits)
              then show ?thesis using Cons unseen Some True wr by blast
            next
              case False
              then have "loop k vw reg (rest @ get_previous_instructions k vw cur)
                           (insert cur seen) (dec @ [cur]) = Some y"
                using body Cons same unseen Some
                by (simp add: redefines_def split: list.splits)
              then have "P (rest @ get_previous_instructions k vw cur)
                           (insert cur seen) (dec @ [cur]) y"
                using IH by blast
              then show ?thesis
                using Cons unseen Some False skip by blast
            qed
          qed
        qed
      qed
    qed
  qed
  then show ?thesis by simp
qed

lemma loop_log_distinct:
  "find_definition_loop k vw reg q seen dec = Some y \<Longrightarrow>
   distinct dec \<longrightarrow> set dec \<subseteq> seen \<longrightarrow> distinct (snd y)"
proof (induction rule: loop_cases_induct)
  case (Skip cur rest seen dec insn y)
  then show ?case by auto
qed auto

lemma loop_success_sound:
  "find_definition_loop k vw reg q seen dec = Some y \<Longrightarrow>
   fst y = Inr (addr, val) \<longrightarrow>
   (\<exists>insn. parseOpcode vw addr = Some insn \<and> redefines reg insn
          \<and> extract_constant addr insn = Inr (addr, val))"
proof (induction rule: loop_cases_induct)
  case (Write cur rest seen dec insn)
  then show ?case using extract_constant_addr [of cur insn addr val] by auto
qed simp_all

text \<open>Backward reachability and sets closed under predecessors.\<close>

lemma reachable_in_closed:
  assumes start: "set (get_previous_instructions k vw va) \<subseteq> S"
    and closed: "\<forall>a\<in>S. set (get_previous_instructions k vw a) \<subseteq> S"
    and reach: "(a, va) \<in> (flows k vw)\<^sup>+"
  shows "a \<in> S"
  using reach
proof (induction rule: converse_trancl_induct)
  case (base y)
  then show ?case using start by (auto simp: flows_def)
next
  case (step y z)
  then show ?case using closed by (auto simp: flows_def)
qed

lemma reachable_start:
  "set (get_previous_instructions k vw va) \<subseteq> {a. (a, va) \<in> (flows k vw)\<^sup>+}"
  by (auto simp: flows_def)

lemma reachable_closed:
  "\<forall>a\<in>{a. (a, va) \<in> (flows k vw)\<^sup>+}.
     set (get_previous_instructions k vw a) \<subseteq> {a. (a, va) \<in> (flows k vw)\<^sup>+}"
  by (auto simp: flows_def intro: trancl_into_trancl2)

lemma reachable_finite:
  assumes "finite S" and "set (get_previous_instructions k vw va) \<subseteq> S"
    and "\<forall>a\<in>S. set (get_previous_instructions k vw a) \<subseteq> S"
  shows "finite {a. (a, va) \<in> (flows k vw)\<^sup>+}"
proof (rule finite_subset [OF _ assms(1)])
  show "{a. (a, va) \<in> (flows k vw)\<^sup>+} \<subseteq> S"
    using reachable_in_closed [OF assms(2,3)] by blast
qed

text \<open>
  The invariant of the search: every visited address was decoded and skipped, and its
  predecessors are visited or queued; so are the predecessors of the start.
\<close>

lemma loop_not_found_sound:
  "find_definition_loop k vw reg q seen dec = Some y \<Longrightarrow>
   fst y = Inl NotFoundError \<longrightarrow>
   set (get_previous_instructions k vw va) \<subseteq> seen \<union> set q \<longrightarrow>
   (\<forall>a\<in>seen. set (get_previous_instructions k vw a) \<subseteq> seen \<union> set q) \<longrightarrow>
   (\<forall>a\<in>seen. \<exists>insn. parseOpcode vw a = Some insn \<and> \<not> redefines reg insn) \<longrightarrow>
   (\<forall>a. (a, va) \<in> (flows k vw)\<^sup>+ \<longrightarrow>
        (\<exists>insn. parseOpcode vw a = Some insn \<and> \<not> redefines reg insn))"
proof (induction rule: loop_cases_induct)
  case (Nil seen dec)
  show ?case
  proof (intro impI allI)
    fix a
    assume start: "set (get_previous_instructions k vw va) \<subseteq> seen \<union> set []"
      and closed: "\<forall>a\<in>seen. set (get_previous_instructions k vw a) \<subseteq> seen \<union> set []"
      and skipped: "\<forall>a\<in>seen. \<exists>insn. parseOpcode vw a = Some insn \<and> \<not> redefines reg insn"
      and reach: "(a, va) \<in> (flows k vw)\<^sup>+"
    have "a \<in> seen"
      using reachable_in_closed [of k vw va seen a] start closed reach by simp
    then show "\<exists>insn. parseOpcode vw a = Some insn \<and> \<not> redefines reg insn"
      using skipped by blast
  qed
next
  case (Seen cur rest seen dec y)
  then show ?case by (simp add: insert_absorb)
next
  case (Decode cur rest seen dec)
  then show ?case by simp
next
  case (Skip cur rest seen dec insn y)
  show ?case
  proof (intro impI)
    assume nf: "fst y = Inl NotFoundError"
      and start: "set (get_previous_instructions k vw va) \<subseteq> seen \<union> set (cur # rest)"
      and closed: "\<forall>a\<in>seen. set (get_previous_instructions k vw a) \<subseteq> seen \<union> set (cur # rest)"
      and skipped: "\<forall>a\<in>seen. \<exists>insn. parseOpcode vw a = Some insn \<and> \<not> redefines reg insn"
    have 1: "set (get_previous_instructions k vw va)
               \<subseteq> insert cur seen \<union> set (rest @ get_previous_instructions k vw cur)"
      using start by auto
    have 2: "\<forall>a\<in>insert cur seen. set (get_previous_instructions k vw a)
               \<subseteq> insert cur seen \<union> set (rest @ get_previous_instructions k vw cur)"
      using closed by auto
    have 3: "\<forall>a\<in>insert cur seen. \<exists>insn. parseOpcode vw a = Some insn \<and> \<not> redefines reg insn"
      using skipped Skip.hyps by auto
    show "\<forall>a. (a, va) \<in> (flows k vw)\<^sup>+ \<longrightarrow>
              (\<exists>insn. parseOpcode vw a = Some insn \<and> \<not> redefines reg insn)"
      using Skip.IH nf 1 2 3 by blast
  qed
next
  case (Write cur rest seen dec insn)
  then show ?case
    by (auto simp: extract_constant_def split: if_splits list.splits operand.splits)
qed


text \<open>The queue is first in, first out: the first write in the queue ends the search.\<close>

lemma loop_first_write:
  assumes d: "parseOpcode vw d = Some insn" "redefines reg insn"
  shows "\<forall>p\<in>set pre. \<exists>i. parseOpcode vw p = Some i \<and> \<not> redefines reg i \<Longrightarrow> d \<notin> seen \<Longrightarrow>
         \<exists>dec'. find_definition_loop k vw reg (pre @ d # post) seen dec
                  = Some (extract_constant d insn, dec')"
proof (induction pre arbitrary: seen post dec)
  case Nil
  then show ?case using d by (simp add: loop_write)
next
  case (Cons p pre)
  obtain i where i: "parseOpcode vw p = Some i" "\<not> redefines reg i"
    using Cons.prems(1) by auto
  have pd: "p \<noteq> d" using i d by auto
  have rest: "\<forall>p\<in>set pre. \<exists>i. parseOpcode vw p = Some i \<and> \<not> redefines reg i"
    using Cons.prems(1) by simp
  show ?case
  proof (cases "p \<in> seen")
    case True
    then show ?thesis
      using Cons.IH [OF rest Cons.prems(2), of post dec] by (simp add: loop_seen)
  next
    case False
    have "d \<notin> insert p seen" using pd Cons.prems(2) by simp
    from Cons.IH [OF rest this, of "post @ get_previous_instructions k vw p" "dec @ [p]"]
    show ?thesis using False i by (simp add: loop_skip)
  qed
qed

text \<open>The loop before the call at 206 of the concrete workspace.\<close>

lemma ex_loop_preds:
  "get_previous_instructions ex_consts ex_vw 206 = [204]"
  "get_previous_instructions ex_consts ex_vw 204 = [201]"
  "get_previous_instructions ex_consts ex_vw 201 = [200]"
  "get_previous_instructions ex_consts ex_vw 200 = [204]"
  by (simp_all add: pred_defs ex_defs)

lemma ex_loop_reachable:
  "finite {a. (a, 206) \<in> (flows ex_consts ex_vw)\<^sup>+}"
proof (rule reachable_finite [of "{200, 201, 204}"])
  show "finite {200, 201, 204 :: int}" by simp
  show "set (get_previous_instructions ex_consts ex_vw 206) \<subseteq> {200, 201, 204}"
    by (simp add: ex_loop_preds)
  show "\<forall>a\<in>{200, 201, 204}. set (get_previous_instructions ex_consts ex_vw a) \<subseteq> {200, 201, 204}"
    by (simp add: ex_loop_preds)
qed

text \<open>
  C3. On every control-flow graph, cyclic or not, in which finitely many addresses flow
  backward into \<open>va\<close>, \<open>find_definition\<close> returns (an outcome, not \<open>None\<close>), and the
  addresses it decoded are pairwise distinct: no address is decoded and inspected
  twice in one call.
\<close>

theorem find_definition_terminates_once:
  assumes "finite {a. (a, va) \<in> (flows k vw)\<^sup>+}"
  shows "\<exists>out decoded. find_definition_run k vw va reg = Some (out, decoded)
           \<and> find_definition k vw va reg = Some out \<and> distinct decoded"
proof -
  obtain r where r: "find_definition_run k vw va reg = Some r"
    using loop_terminates [OF assms reachable_closed reachable_start, of reg "{}" "[]"]
    by (auto simp: find_definition_run_def)
  then have "distinct (snd r)"
    using loop_log_distinct [of k vw reg "get_previous_instructions k vw va" "{}" "[]" r]
    by (simp add: find_definition_run_def)
  then show ?thesis
    using r by (cases r) (simp add: find_definition_def)
qed

theorem find_definition_terminates_once_witness:
  "(204, 200) \<in> flows ex_consts ex_vw \<and> (200, 201) \<in> flows ex_consts ex_vw
   \<and> (201, 204) \<in> flows ex_consts ex_vw
   \<and> finite {a. (a, 206) \<in> (flows ex_consts ex_vw)\<^sup>+}
   \<and> (\<exists>out decoded. find_definition_run ex_consts ex_vw 206 0 = Some (out, decoded)
         \<and> find_definition ex_consts ex_vw 206 0 = Some out \<and> distinct decoded)"
proof -
  have cyc: "(204, 200) \<in> flows ex_consts ex_vw \<and> (200, 201) \<in> flows ex_consts ex_vw
             \<and> (201, 204) \<in> flows ex_consts ex_vw"
    by (simp add: flows_def ex_loop_preds)
  show ?thesis
    using cyc ex_loop_reachable find_definition_terminates_once [OF ex_loop_reachable, of 0]
    by simp
qed



text \<open>Which outcomes the loop can have, and where each error comes from.\<close>

lemma loop_outcome_kinds:
  "find_definition_loop k vw reg q seen dec = Some y \<Longrightarrow>
   fst y = Inl NotFoundError \<or> fst y = Inl DecodeError \<or> fst y = Inl IndexError
   \<or> (\<exists>addr val. fst y = Inr (addr, val))"
proof (induction rule: loop_cases_induct)
  case (Write cur rest seen dec insn)
  show ?case
    by (cases "extract_constant cur insn")
       (auto simp: extract_constant_def split: if_splits list.splits operand.splits)
qed simp_all

lemma loop_decode_error_sound:
  "find_definition_loop k vw reg q seen dec = Some y \<Longrightarrow>
   fst y = Inl DecodeError \<longrightarrow> set q \<subseteq> S \<longrightarrow>
   (\<forall>a\<in>S. set (get_previous_instructions k vw a) \<subseteq> S) \<longrightarrow>
   (\<exists>a\<in>S. parseOpcode vw a = None)"
proof (induction rule: loop_cases_induct)
  case (Skip cur rest seen dec insn y)
  then show ?case by auto
next
  case (Write cur rest seen dec insn)
  then show ?case
    by (auto simp: extract_constant_def split: if_splits list.splits operand.splits)
qed auto

lemma loop_index_error_sound:
  "find_definition_loop k vw reg q seen dec = Some y \<Longrightarrow>
   fst y = Inl IndexError \<longrightarrow> set q \<subseteq> S \<longrightarrow>
   (\<forall>a\<in>S. set (get_previous_instructions k vw a) \<subseteq> S) \<longrightarrow>
   (\<exists>a\<in>S. \<exists>i. parseOpcode vw a = Some i \<and> mnem i = ''mov'' \<and> length (opers i) < 2)"
proof (induction rule: loop_cases_induct)
  case (Skip cur rest seen dec insn y)
  then show ?case by auto
next
  case (Write cur rest seen dec insn)
  have "extract_constant cur insn = Inl IndexError \<Longrightarrow> mnem insn = ''mov'' \<and> length (opers insn) < 2"
    by (auto simp: extract_constant_def split: if_splits list.splits operand.splits)
  then show ?case using Write by auto
qed auto

lemma loop_first_in_log:
  "find_definition_loop k vw reg q seen dec = Some y \<Longrightarrow>
   fst y = Inr (addr, val) \<longrightarrow>
   (\<forall>p\<in>set dec. \<exists>i. parseOpcode vw p = Some i \<and> \<not> redefines reg i) \<longrightarrow>
   (\<exists>earlier insn. snd y = earlier @ [addr]
       \<and> (\<forall>p\<in>set earlier. \<exists>i. parseOpcode vw p = Some i \<and> \<not> redefines reg i)
       \<and> parseOpcode vw addr = Some insn \<and> redefines reg insn
       \<and> extract_constant addr insn = Inr (addr, val))"
proof (induction rule: loop_cases_induct)
  case (Skip cur rest seen dec insn y)
  then show ?case by auto
next
  case (Write cur rest seen dec insn)
  then show ?case using extract_constant_addr [of cur insn addr val] by auto
qed simp_all

text \<open>The two paths that merge at the call at 120 of the concrete workspace.\<close>

lemma ex_merge_preds:
  "get_previous_instructions ex_consts ex_vw 120 = [115, 105]"
  "get_previous_instructions ex_consts ex_vw 115 = [110]"
  "get_previous_instructions ex_consts ex_vw 105 = [100]"
  "get_previous_instructions ex_consts ex_vw 110 = []"
  "get_previous_instructions ex_consts ex_vw 100 = []"
  by (simp_all add: pred_defs ex_defs)

lemma ex_merge_opcodes:
  "parseOpcode ex_vw 100 = Some (mk_insn 100 5 ''mov'' [i386RegOper 0, i386ImmOper 4660])"
  "parseOpcode ex_vw 105 = Some (mk_insn 105 2 ''jmp'' [OtherOper])"
  "parseOpcode ex_vw 110 = Some (mk_insn 110 5 ''mov'' [i386RegOper 0, i386ImmMemOper 4198400])"
  "parseOpcode ex_vw 115 = Some (mk_insn 115 5 ''add'' [i386RegOper 0, i386ImmOper 1])"
  by (simp_all add: ex_defs)

lemma ex_merge_within:
  "(a, 120) \<in> (flows ex_consts ex_vw)\<^sup>+ \<Longrightarrow> a \<in> {100, 105, 110, 115}"
  using reachable_in_closed [of ex_consts ex_vw 120 "{100, 105, 110, 115}" a]
  by (simp add: ex_merge_preds)

lemma ex_merge_reachable:
  "finite {a. (a, 120) \<in> (flows ex_consts ex_vw)\<^sup>+}"
  by (rule reachable_finite [of "{100, 105, 110, 115}"]) (simp_all add: ex_merge_preds)

lemma ex_merge_run:
  "find_definition_run ex_consts ex_vw 120 0 = Some (Inr (110, Some 4198400), [115, 105, 110])"
  by (simp add: find_definition_run_def find_definition_loop.simps
      pred_defs destructive_write_def DESTRUCTIVE_MNEMONICS_def extract_constant_def ex_defs)

text \<open>
  C8. Constant extraction does not raise. At an instruction accepted as a destructive
  write the search returns the pair of its address and a value, whatever the kinds of
  its operands (for a \<^verbatim>\<open>mov\<close>, whatever the kind of the second operand the
  disassembler gives it; another mnemonic needs no second operand at all). And when
  every \<^verbatim>\<open>mov\<close> that flows backward into \<open>va\<close> has its two operands, as the
  disassembler gives every \<^verbatim>\<open>mov\<close>, \<open>find_definition\<close> never fails with \<^verbatim>\<open>IndexError\<close>.
\<close>

theorem extract_constant_never_raises:
  "(cur \<notin> seen \<and> parseOpcode vw cur = Some insn
      \<and> opers insn = i386RegOper reg # rest \<and> mnem insn \<in> set DESTRUCTIVE_MNEMONICS
      \<and> (mnem insn = ''mov'' \<longrightarrow> rest \<noteq> [])
     \<longrightarrow> (\<exists>val. map_option fst (find_definition_loop k vw reg (cur # q) seen decoded)
                  = Some (Inr (cur, val))))
   \<and> ((\<forall>a i. (a, va) \<in> (flows k vw)\<^sup>+ \<and> parseOpcode vw a = Some i \<and> mnem i = ''mov''
              \<longrightarrow> 2 \<le> length (opers i))
     \<longrightarrow> find_definition k vw va reg \<noteq> Some (Inl IndexError))"
proof (intro conjI impI)
  assume h: "cur \<notin> seen \<and> parseOpcode vw cur = Some insn
      \<and> opers insn = i386RegOper reg # rest \<and> mnem insn \<in> set DESTRUCTIVE_MNEMONICS
      \<and> (mnem insn = ''mov'' \<longrightarrow> rest \<noteq> [])"
  then have "redefines reg insn" by (simp add: redefines_iff)
  then have "find_definition_loop k vw reg (cur # q) seen decoded
               = Some (extract_constant cur insn, decoded @ [cur])"
    using h by (simp add: loop_write)
  moreover have "\<exists>val. extract_constant cur insn = Inr (cur, val)"
    using h by (auto simp: extract_constant_def neq_Nil_conv split: operand.splits)
  ultimately show "\<exists>val. map_option fst (find_definition_loop k vw reg (cur # q) seen decoded)
                          = Some (Inr (cur, val))"
    by auto
next
  assume movs: "\<forall>a i. (a, va) \<in> (flows k vw)\<^sup>+ \<and> parseOpcode vw a = Some i \<and> mnem i = ''mov''
              \<longrightarrow> 2 \<le> length (opers i)"
  show "find_definition k vw va reg \<noteq> Some (Inl IndexError)"
  proof
    assume "find_definition k vw va reg = Some (Inl IndexError)"
    then obtain r where r: "find_definition_loop k vw reg (get_previous_instructions k vw va) {} []
                              = Some r" and out: "fst r = Inl IndexError"
      by (auto simp: find_definition_def find_definition_run_def)
    have "\<exists>a\<in>{a. (a, va) \<in> (flows k vw)\<^sup>+}. \<exists>i. parseOpcode vw a = Some i
             \<and> mnem i = ''mov'' \<and> length (opers i) < 2"
      using loop_index_error_sound [OF r, of "{a. (a, va) \<in> (flows k vw)\<^sup>+}"] out
        reachable_start [of k vw va] reachable_closed [of va k vw]
      by simp
    then obtain a i where bad: "(a, va) \<in> (flows k vw)\<^sup>+" "parseOpcode vw a = Some i"
        "mnem i = ''mov''" "length (opers i) < 2"
      by blast
    then have "2 \<le> length (opers i)" using movs by blast
    then show False using bad(4) by simp
  qed
qed

theorem extract_constant_never_raises_witness:
  "parseOpcode ex_vw 800 = Some (mk_insn 800 3 ''mov'' [i386RegOper 0, OtherOper])
   \<and> (\<exists>val. map_option fst (find_definition_loop ex_consts ex_vw 0 [800] {} [])
              = Some (Inr (800, val)))
   \<and> parseOpcode ex_vw 830 = Some (mk_insn 830 2 ''mov'' [i386RegOper 0, i386RegOper 1])
   \<and> (\<exists>val. map_option fst (find_definition_loop ex_consts ex_vw 0 [830] {} [])
              = Some (Inr (830, val)))
   \<and> parseOpcode ex_vw 820 = Some (mk_insn 820 1 ''pop'' [i386RegOper 0])
   \<and> (\<exists>val. map_option fst (find_definition_loop ex_consts ex_vw 0 [820] {} [])
              = Some (Inr (820, val)))
   \<and> find_definition ex_consts ex_vw 120 0 \<noteq> Some (Inl IndexError)"
proof -
  have movs: "\<forall>a i. (a, 120) \<in> (flows ex_consts ex_vw)\<^sup>+ \<and> parseOpcode ex_vw a = Some i
                \<and> mnem i = ''mov'' \<longrightarrow> 2 \<le> length (opers i)"
  proof (intro allI impI)
    fix a i
    assume h: "(a, 120) \<in> (flows ex_consts ex_vw)\<^sup>+ \<and> parseOpcode ex_vw a = Some i
                \<and> mnem i = ''mov''"
    then have "a = 100 \<or> a = 105 \<or> a = 110 \<or> a = 115" using ex_merge_within [of a] by simp
    moreover have "parseOpcode ex_vw a = Some i" and "mnem i = ''mov''" using h by simp_all
    ultimately show "2 \<le> length (opers i)"
      by (elim disjE) (auto simp: ex_merge_opcodes mk_insn_def)
  qed
  have ops: "parseOpcode ex_vw 800 = Some (mk_insn 800 3 ''mov'' [i386RegOper 0, OtherOper])"
    "parseOpcode ex_vw 830 = Some (mk_insn 830 2 ''mov'' [i386RegOper 0, i386RegOper 1])"
    "parseOpcode ex_vw 820 = Some (mk_insn 820 1 ''pop'' [i386RegOper 0])"
    by (simp_all add: ex_defs)
  show ?thesis
    using movs ops
      extract_constant_never_raises [of 800 "{}" ex_vw
        "mk_insn 800 3 ''mov'' [i386RegOper 0, OtherOper]" 0 "[OtherOper]" ex_consts "[]" "[]" 120]
      extract_constant_never_raises [of 830 "{}" ex_vw
        "mk_insn 830 2 ''mov'' [i386RegOper 0, i386RegOper 1]" 0 "[i386RegOper 1]" ex_consts "[]" "[]" 120]
      extract_constant_never_raises [of 820 "{}" ex_vw
        "mk_insn 820 1 ''pop'' [i386RegOper 0]" 0 "[]" ex_consts "[]" "[]" 120]
    by (simp add: mk_insn_def DESTRUCTIVE_MNEMONICS_def)
qed

text \<open>
  C6. \<open>find_definition\<close> returns one pair, that of the first destructive write in the
  order in which the queue hands out addresses, and never looks at another definition:
  \<^item> when it returns \<open>(addr, val)\<close>, \<open>addr\<close> is the last address it decoded, every
    address decoded before it was skipped as not writing the register, and \<open>val\<close> is
    read off the instruction at \<open>addr\<close> alone;
  \<^item> on a graph in which finitely many addresses flow backward into \<open>va\<close>, all of them
    decode (a \<^verbatim>\<open>mov\<close> with its two operands) and at least one writes the register, it
    does return such a pair, and no error, however many paths merge and however
    their definitions differ;
  \<^item> when the predecessors of \<open>va\<close> are \<open>pre @ d # post\<close>, with \<open>pre\<close> all skipped and
    \<open>d\<close> a write, the pair is that of \<open>d\<close>, whatever \<open>post\<close> and the predecessors of
    \<open>pre\<close> define;
  \<^item> and the same holds at every later state of the queue.
\<close>

theorem find_definition_first_write_wins:
  "(find_definition_run k vw va reg = Some (Inr (addr, val), decoded)
     \<longrightarrow> (\<exists>earlier insn. decoded = earlier @ [addr]
           \<and> (\<forall>p\<in>set earlier. \<exists>i. parseOpcode vw p = Some i \<and> \<not> redefines reg i)
           \<and> parseOpcode vw addr = Some insn \<and> redefines reg insn
           \<and> extract_constant addr insn = Inr (addr, val)))
   \<and> (finite {a. (a, va) \<in> (flows k vw)\<^sup>+}
        \<and> (\<forall>a. (a, va) \<in> (flows k vw)\<^sup>+ \<longrightarrow>
               (\<exists>i. parseOpcode vw a = Some i \<and> (mnem i = ''mov'' \<longrightarrow> 2 \<le> length (opers i))))
        \<and> (\<exists>a i. (a, va) \<in> (flows k vw)\<^sup>+ \<and> parseOpcode vw a = Some i \<and> redefines reg i)
     \<longrightarrow> (\<exists>addr' val'. find_definition k vw va reg = Some (Inr (addr', val'))))
   \<and> (get_previous_instructions k vw va = pre @ d # post
        \<and> (\<forall>p\<in>set pre. \<exists>i. parseOpcode vw p = Some i \<and> \<not> redefines reg i)
        \<and> parseOpcode vw d = Some dinsn \<and> redefines reg dinsn
        \<and> (mnem dinsn = ''mov'' \<longrightarrow> 2 \<le> length (opers dinsn))
     \<longrightarrow> (\<exists>val'. find_definition k vw va reg = Some (Inr (d, val'))
                 \<and> extract_constant d dinsn = Inr (d, val')))
   \<and> (d \<notin> seen
        \<and> (\<forall>p\<in>set pre. \<exists>i. parseOpcode vw p = Some i \<and> \<not> redefines reg i)
        \<and> parseOpcode vw d = Some dinsn \<and> redefines reg dinsn
        \<and> (mnem dinsn = ''mov'' \<longrightarrow> 2 \<le> length (opers dinsn))
     \<longrightarrow> (\<exists>val'. map_option fst (find_definition_loop k vw reg (pre @ d # post) seen decoded0)
                    = Some (Inr (d, val'))
                 \<and> extract_constant d dinsn = Inr (d, val')))"
proof (intro conjI impI)
  assume "find_definition_run k vw va reg = Some (Inr (addr, val), decoded)"
  then show "\<exists>earlier insn. decoded = earlier @ [addr]
           \<and> (\<forall>p\<in>set earlier. \<exists>i. parseOpcode vw p = Some i \<and> \<not> redefines reg i)
           \<and> parseOpcode vw addr = Some insn \<and> redefines reg insn
           \<and> extract_constant addr insn = Inr (addr, val)"
    using loop_first_in_log [of k vw reg "get_previous_instructions k vw va" "{}" "[]"
        "(Inr (addr, val), decoded)" addr val]
    by (simp add: find_definition_run_def)
next
  let ?R = "{a. (a, va) \<in> (flows k vw)\<^sup>+}"
  assume h: "finite ?R
        \<and> (\<forall>a. (a, va) \<in> (flows k vw)\<^sup>+ \<longrightarrow>
               (\<exists>i. parseOpcode vw a = Some i \<and> (mnem i = ''mov'' \<longrightarrow> 2 \<le> length (opers i))))
        \<and> (\<exists>a i. (a, va) \<in> (flows k vw)\<^sup>+ \<and> parseOpcode vw a = Some i \<and> redefines reg i)"
  then have fin: "finite ?R" by simp
  obtain r where r: "find_definition_loop k vw reg (get_previous_instructions k vw va) {} [] = Some r"
    using loop_terminates [OF fin reachable_closed reachable_start, of reg "{}" "[]"] by auto
  have not_nf: "fst r \<noteq> Inl NotFoundError"
  proof
    assume "fst r = Inl NotFoundError"
    then have "\<forall>a. (a, va) \<in> (flows k vw)\<^sup>+ \<longrightarrow>
                 (\<exists>insn. parseOpcode vw a = Some insn \<and> \<not> redefines reg insn)"
      using loop_not_found_sound [OF r, of va] by simp
    then show False using h by fastforce
  qed
  have not_dec: "fst r \<noteq> Inl DecodeError"
  proof
    assume "fst r = Inl DecodeError"
    then have "\<exists>a\<in>?R. parseOpcode vw a = None"
      using loop_decode_error_sound [OF r, of ?R]
        reachable_start [of k vw va] reachable_closed [of va k vw]
      by simp
    then obtain a where "(a, va) \<in> (flows k vw)\<^sup>+" "parseOpcode vw a = None" by blast
    then show False using h by fastforce
  qed
  have not_idx: "fst r \<noteq> Inl IndexError"
  proof
    assume "fst r = Inl IndexError"
    then have "\<exists>a\<in>?R. \<exists>i. parseOpcode vw a = Some i \<and> mnem i = ''mov'' \<and> length (opers i) < 2"
      using loop_index_error_sound [OF r, of ?R]
        reachable_start [of k vw va] reachable_closed [of va k vw]
      by simp
    then obtain a i where bad: "(a, va) \<in> (flows k vw)\<^sup>+" "parseOpcode vw a = Some i"
        "mnem i = ''mov''" "length (opers i) < 2"
      by blast
    obtain j where "parseOpcode vw a = Some j" "mnem j = ''mov'' \<longrightarrow> 2 \<le> length (opers j)"
      using h bad(1) by blast
    then show False using bad by simp
  qed
  have "\<exists>addr' val'. fst r = Inr (addr', val')"
    using loop_outcome_kinds [OF r] not_nf not_dec not_idx by blast
  then show "\<exists>addr' val'. find_definition k vw va reg = Some (Inr (addr', val'))"
    using r by (simp add: find_definition_def find_definition_run_def)
next
  assume h: "get_previous_instructions k vw va = pre @ d # post
        \<and> (\<forall>p\<in>set pre. \<exists>i. parseOpcode vw p = Some i \<and> \<not> redefines reg i)
        \<and> parseOpcode vw d = Some dinsn \<and> redefines reg dinsn
        \<and> (mnem dinsn = ''mov'' \<longrightarrow> 2 \<le> length (opers dinsn))"
  then obtain dec' where run: "find_definition_loop k vw reg (pre @ d # post) {} []
                                 = Some (extract_constant d dinsn, dec')"
    using loop_first_write [of vw d dinsn reg pre "{}" k post "[]"] by auto
  have "\<exists>val'. extract_constant d dinsn = Inr (d, val')"
    using h by (auto simp: extract_constant_def split: list.splits operand.splits)
  then show "\<exists>val'. find_definition k vw va reg = Some (Inr (d, val'))
                 \<and> extract_constant d dinsn = Inr (d, val')"
    using run h by (auto simp: find_definition_def find_definition_run_def)
next
  assume h: "d \<notin> seen
        \<and> (\<forall>p\<in>set pre. \<exists>i. parseOpcode vw p = Some i \<and> \<not> redefines reg i)
        \<and> parseOpcode vw d = Some dinsn \<and> redefines reg dinsn
        \<and> (mnem dinsn = ''mov'' \<longrightarrow> 2 \<le> length (opers dinsn))"
  then obtain dec' where run: "find_definition_loop k vw reg (pre @ d # post) seen decoded0
                                 = Some (extract_constant d dinsn, dec')"
    using loop_first_write [of vw d dinsn reg pre seen k post decoded0] by auto
  have "\<exists>val'. extract_constant d dinsn = Inr (d, val')"
    using h by (auto simp: extract_constant_def split: list.splits operand.splits)
  then show "\<exists>val'. map_option fst (find_definition_loop k vw reg (pre @ d # post) seen decoded0)
                    = Some (Inr (d, val'))
                 \<and> extract_constant d dinsn = Inr (d, val')"
    using run by auto
qed

theorem find_definition_first_write_wins_witness:
  "find_definition_run ex_consts ex_vw 120 0 = Some (Inr (110, Some 4198400), [115, 105, 110])
   \<and> parseOpcode ex_vw 100 = Some (mk_insn 100 5 ''mov'' [i386RegOper 0, i386ImmOper 4660])
   \<and> (100, 105) \<in> flows ex_consts ex_vw \<and> (105, 120) \<in> flows ex_consts ex_vw
   \<and> (110, 115) \<in> flows ex_consts ex_vw \<and> (115, 120) \<in> flows ex_consts ex_vw
   \<and> (\<exists>earlier insn. [115, 105, 110 :: int] = earlier @ [110]
         \<and> parseOpcode ex_vw 110 = Some insn \<and> redefines 0 insn
         \<and> extract_constant 110 insn = Inr (110, Some 4198400))
   \<and> finite {a. (a, 120) \<in> (flows ex_consts ex_vw)\<^sup>+}
   \<and> (\<exists>addr' val'. find_definition ex_consts ex_vw 120 0 = Some (Inr (addr', val')))
   \<and> (\<exists>val'. find_definition ex_consts ex_vw 115 0 = Some (Inr (110, val')))
   \<and> (\<exists>val'. map_option fst
                 (find_definition_loop ex_consts ex_vw 0 [110, 100] {115, 105} [115, 105])
               = Some (Inr (110, val')))"
proof -
  let ?mov110 = "mk_insn 110 5 ''mov'' [i386RegOper 0, i386ImmMemOper 4198400]"
  note at120 = find_definition_first_write_wins [where k = ex_consts and vw = ex_vw
      and va = 120 and reg = 0 and addr = 110 and val = "Some 4198400"
      and decoded = "[115, 105, 110]" and pre = "[]" and d = 110 and post = "[100]"
      and dinsn = ?mov110 and seen = "{115, 105}" and ?decoded0.0 = "[115, 105]"]
  note at115 = find_definition_first_write_wins [where k = ex_consts and vw = ex_vw
      and va = 115 and reg = 0 and pre = "[]" and d = 110 and post = "[]"
      and dinsn = ?mov110]
  have edges: "(100, 105) \<in> flows ex_consts ex_vw \<and> (105, 120) \<in> flows ex_consts ex_vw
      \<and> (110, 115) \<in> flows ex_consts ex_vw \<and> (115, 120) \<in> flows ex_consts ex_vw"
    by (simp add: flows_def ex_merge_preds)
  have w110: "redefines 0 ?mov110" and a110: "mnem ?mov110 = ''mov'' \<longrightarrow> 2 \<le> length (opers ?mov110)"
    by (simp_all add: redefines_iff mk_insn_def DESTRUCTIVE_MNEMONICS_def)
  have first: "\<exists>earlier insn. [115, 105, 110 :: int] = earlier @ [110]
         \<and> parseOpcode ex_vw 110 = Some insn \<and> redefines 0 insn
         \<and> extract_constant 110 insn = Inr (110, Some 4198400)"
    using at120 [THEN conjunct1] ex_merge_run by blast
  have decodes: "\<forall>a. (a, 120) \<in> (flows ex_consts ex_vw)\<^sup>+ \<longrightarrow>
      (\<exists>i. parseOpcode ex_vw a = Some i \<and> (mnem i = ''mov'' \<longrightarrow> 2 \<le> length (opers i)))"
  proof (intro allI impI)
    fix a
    assume "(a, 120) \<in> (flows ex_consts ex_vw)\<^sup>+"
    then have "a = 100 \<or> a = 105 \<or> a = 110 \<or> a = 115" using ex_merge_within [of a] by simp
    then show "\<exists>i. parseOpcode ex_vw a = Some i \<and> (mnem i = ''mov'' \<longrightarrow> 2 \<le> length (opers i))"
      by (elim disjE) (simp_all add: ex_merge_opcodes mk_insn_def)
  qed
  have reach110: "(110, 120) \<in> (flows ex_consts ex_vw)\<^sup>+"
    using edges by (meson trancl.r_into_trancl trancl_trans)
  have some_write: "\<exists>a i. (a, 120) \<in> (flows ex_consts ex_vw)\<^sup>+ \<and> parseOpcode ex_vw a = Some i
      \<and> redefines 0 i"
    using reach110 ex_merge_opcodes(3) w110 by blast
  have returns: "\<exists>addr' val'. find_definition ex_consts ex_vw 120 0 = Some (Inr (addr', val'))"
    using at120 [THEN conjunct2, THEN conjunct1] ex_merge_reachable decodes some_write by blast
  have start: "\<exists>val'. find_definition ex_consts ex_vw 115 0 = Some (Inr (110, val'))"
    using at115 [THEN conjunct2, THEN conjunct2, THEN conjunct1]
      ex_merge_preds(2) ex_merge_opcodes(3) w110 a110
    by auto
  have queue: "\<exists>val'. map_option fst
                 (find_definition_loop ex_consts ex_vw 0 [110, 100] {115, 105} [115, 105])
               = Some (Inr (110, val'))"
    using at120 [THEN conjunct2, THEN conjunct2, THEN conjunct2]
      ex_merge_opcodes(3) w110 a110
    by auto
  show ?thesis
    using ex_merge_run ex_merge_opcodes(1) edges first ex_merge_reachable returns start queue
    by blast
qed

text \<open>
  C10. When \<open>find_definition\<close> returns a pair \<open>(addr, val)\<close>, the instruction at \<open>addr\<close>
  has the target register as its first operand and a destructive mnemonic; and when
  \<open>val\<close> is not \<open>None\<close>, the mnemonic is \<^verbatim>\<open>mov\<close> and the second operand is an immediate,
  an immediate memory operand or a RIP-relative operand.
\<close>

theorem find_definition_result_invariant:
  assumes "find_definition k vw va reg = Some (Inr (addr, val))"
  shows "\<exists>insn rest. parseOpcode vw addr = Some insn
           \<and> opers insn = i386RegOper reg # rest
           \<and> mnem insn \<in> set DESTRUCTIVE_MNEMONICS
           \<and> (val \<noteq> None \<longrightarrow> mnem insn = ''mov''
                \<and> (\<exists>imm others. rest = i386ImmOper imm # others
                      \<or> rest = i386ImmMemOper imm # others
                      \<or> rest = Amd64RipRelOper imm # others))"
proof -
  obtain r where r: "find_definition_loop k vw reg (get_previous_instructions k vw va) {} [] = Some r"
    and out: "fst r = Inr (addr, val)"
    using assms by (auto simp: find_definition_def find_definition_run_def)
  obtain insn where insn: "parseOpcode vw addr = Some insn" "redefines reg insn"
    "extract_constant addr insn = Inr (addr, val)"
    using loop_success_sound [OF r, of addr val] out by blast
  obtain rest where rest: "opers insn = i386RegOper reg # rest"
    "mnem insn \<in> set DESTRUCTIVE_MNEMONICS"
    using insn(2) by (auto simp: redefines_iff)
  have shape: "val \<noteq> None \<longrightarrow> mnem insn = ''mov''
          \<and> (\<exists>imm others. rest = i386ImmOper imm # others
                \<or> rest = i386ImmMemOper imm # others
                \<or> rest = Amd64RipRelOper imm # others)"
    using insn(3) rest(1)
    by (auto simp: extract_constant_def split: if_splits list.splits operand.splits)
  show ?thesis
    by (rule exI [of _ insn], rule exI [of _ rest]) (use insn(1) rest shape in simp)
qed

theorem find_definition_result_invariant_witness:
  "find_definition ex_consts ex_vw 120 0 = Some (Inr (110, Some 4198400))
   \<and> (\<exists>insn rest. parseOpcode ex_vw 110 = Some insn
           \<and> opers insn = i386RegOper 0 # rest
           \<and> mnem insn \<in> set DESTRUCTIVE_MNEMONICS
           \<and> mnem insn = ''mov''
           \<and> (\<exists>imm others. rest = i386ImmOper imm # others
                 \<or> rest = i386ImmMemOper imm # others
                 \<or> rest = Amd64RipRelOper imm # others))"
proof -
  have run: "find_definition ex_consts ex_vw 120 0 = Some (Inr (110, Some 4198400))"
    by (simp add: find_definition_def find_definition_run_def find_definition_loop.simps
        pred_defs destructive_write_def DESTRUCTIVE_MNEMONICS_def extract_constant_def ex_defs)
  show ?thesis
    using run find_definition_result_invariant [OF run] by simp
qed

end
